theory Spec2Isabelle
  imports Complex_Main "HOL-Library.Multiset" "HOL-Library.Char_ord" "HOL-Library.List_Lexorder"
begin

section \<open>Python exceptions\<close>

text \<open>
  The scripts are modelled function by function. A raised exception is a value: a
  function that can raise returns \<open>Inl\<close> of the exception or \<open>Inr\<close> of its result.
\<close>

datatype py_error = ValueError | KeyError | IndexError

section \<open>Pareto front of (time, cost) points (report/analyze_and_plot.py)\<close>

text \<open>
  A data frame is a list of rows. Each row carries its index label (which stands for the
  row's identity and its remaining columns) and the two numeric columns the function
  reads. A missing value (NaN) is \<open>None\<close>. The numeric type is any linear order: the
  function only compares.
\<close>

datatype ('l, 'a) row = Row (label: 'l) (xval: "'a option") (yval: "'a option")

text \<open>Line 199, the \<^verbatim>\<open>dropna()\<close> of the two columns: the rows with both values
  present, each reduced to its label and its two values.\<close>

fun complete :: "('l, 'a) row \<Rightarrow> bool" where
  "complete (Row l (Some x) (Some y)) = True"
| "complete (Row l _ _) = False"

fun dropna :: "('l, 'a) row list \<Rightarrow> ('l \<times> 'a \<times> 'a) list" where
  "dropna [] = []"
| "dropna (Row l (Some x) (Some y) # df) = (l, x, y) # dropna df"
| "dropna (Row l _ _ # df) = dropna df"

text \<open>The test of line 208: \<open>q\<close> dominates \<open>p\<close>.\<close>

fun dominates :: "'a::linorder \<times> 'a \<Rightarrow> 'a \<times> 'a \<Rightarrow> bool" where
  "dominates (x_j, y_j) (x_i, y_i) = (x_j \<le> x_i \<and> y_j \<le> y_i \<and> (x_j < x_i \<or> y_j < y_i))"

text \<open>The inner loop over \<^verbatim>\<open>enumerate(pts)\<close>: skip position \<open>i\<close>, stop at the first
  dominating point.\<close>

fun inner_loop :: "nat \<Rightarrow> 'a::linorder \<times> 'a \<Rightarrow> (nat \<times> 'a \<times> 'a) list \<Rightarrow> bool" where
  "inner_loop i p [] = False"
| "inner_loop i p ((j, q) # rest) =
     (if j = i then inner_loop i p rest
      else if dominates q p then True
      else inner_loop i p rest)"

text \<open>The outer loop: collect the label at position \<open>i\<close> of every point that the inner
  loop leaves undominated.\<close>

fun outer_loop :: "('a::linorder \<times> 'a) list \<Rightarrow> 'l list \<Rightarrow> (nat \<times> 'a \<times> 'a) list \<Rightarrow> 'l list" where
  "outer_loop pts orig_idxs [] = []"
| "outer_loop pts orig_idxs ((i, p) # rest) =
     (if inner_loop i p (enumerate 0 pts) then outer_loop pts orig_idxs rest
      else (orig_idxs ! i) # outer_loop pts orig_idxs rest)"

text \<open>\<^verbatim>\<open>df.loc[labels]\<close>: for each label in turn, the rows of the frame that carry it.\<close>

definition loc :: "('l, 'a) row list \<Rightarrow> 'l list \<Rightarrow> ('l, 'a) row list" where
  "loc df ls = concat (map (\<lambda>l. filter (\<lambda>r. label r = l) df) ls)"

definition pareto_front :: "('l, 'a::linorder) row list \<Rightarrow> ('l, 'a) row list" where
  "pareto_front df =
     (let sub = dropna df;
          pts = map snd sub;
          orig_idxs = map fst sub;
          pareto_idxs = outer_loop pts orig_idxs (enumerate 0 pts)
      in loc df pareto_idxs)"

text \<open>The point of a complete row.\<close>

fun point :: "('l, 'a) row \<Rightarrow> ('a \<times> 'a) option" where
  "point (Row l (Some x) (Some y)) = Some (x, y)"
| "point (Row l _ _) = None"

text \<open>Row \<open>q\<close> dominates row \<open>p\<close>: both are points and the test of line 208 holds.\<close>

definition row_dominates :: "('l, 'a::linorder) row \<Rightarrow> ('l, 'a) row \<Rightarrow> bool" where
  "row_dominates q p =
     (case (point q, point p) of (Some a, Some b) \<Rightarrow> dominates a b | _ \<Rightarrow> False)"

section \<open>Load profile of a tour (scripts/visualize\_solution.py)\<close>








section \<open>Gap between the exact solver and the best heuristic (analyze\_results.py)\<close>

text \<open>
  A row of the exact-solver frame or of the heuristic frame: its cost-function label, its
  instance, and its cost column (\<^verbatim>\<open>Cost\<close> in the exact frame, \<^verbatim>\<open>MinCost\<close> in the
  heuristic frame; \<open>None\<close> is NaN, which \<^verbatim>\<open>read_csv\<close> also gives for "N/A"). Costs are
  rational numbers: the model computes the gap formula exactly.
\<close>

datatype ('c, 'i) cost_row =
  CostRow (cost_function: 'c) (instance_name: 'i) (cost_value: "rat option")

text \<open>\<^verbatim>\<open>series.iloc[0]\<close>: raises IndexError on an empty series.\<close>

fun iloc0 :: "'a list \<Rightarrow> py_error + 'a" where
  "iloc0 [] = Inl IndexError"
| "iloc0 (v # vs) = Inr v"

text \<open>\<^verbatim>\<open>series.min()\<close>: the least value present, NaN when none is.\<close>

definition series_min :: "rat option list \<Rightarrow> rat option" where
  "series_min vs =
     (case List.map_filter (\<lambda>v. v) vs of [] \<Rightarrow> None | x # xs \<Rightarrow> Some (fold min xs x))"

text \<open>\<^verbatim>\<open>sorted(set(a) & set(b))\<close>.\<close>

definition sorted_common :: "'i::linorder list \<Rightarrow> 'i list \<Rightarrow> 'i list" where
  "sorted_common a b = sort (remdups (filter (\<lambda>i. i \<in> set b) a))"

text \<open>
  Lines 134 to 145, the loop over the sorted common instances. The four lists
  \<^verbatim>\<open>instances\<close>, \<^verbatim>\<open>exact_costs\<close>, \<^verbatim>\<open>heuristic_costs\<close> and \<^verbatim>\<open>gaps\<close> grow together, so
  the model returns one list of quadruples (instance, exact cost, heuristic cost, gap).
\<close>

fun gap_loop ::
  "('c, 'i) cost_row list \<Rightarrow> ('c, 'i) cost_row list \<Rightarrow> 'i list
     \<Rightarrow> py_error + ('i \<times> rat \<times> rat \<times> rat) list" where
  "gap_loop exact_data heuristic_data [] = Inr []"
| "gap_loop exact_data heuristic_data (inst # rest) =
     (case iloc0 (map cost_value (filter (\<lambda>r. instance_name r = inst) exact_data)) of
        Inl err \<Rightarrow> Inl err
      | Inr exact_cost \<Rightarrow>
          (let heuristic_cost =
                 series_min (map cost_value (filter (\<lambda>r. instance_name r = inst) heuristic_data))
           in case gap_loop exact_data heuristic_data rest of
                Inl err \<Rightarrow> Inl err
              | Inr later \<Rightarrow>
                  (case (exact_cost, heuristic_cost) of
                     (Some e, Some h) \<Rightarrow>
                       if e > 0 then Inr ((inst, e, h, ((h - e) / e) * 100) # later)
                       else Inr later
                   | _ \<Rightarrow> Inr later)))"

text \<open>Lines 120 to 145 for one cost function: select its rows, intersect the instances,
  skip the cost function when no instance is common, else run the loop.\<close>

definition gap_entries ::
  "'c \<Rightarrow> ('c, 'i::linorder) cost_row list \<Rightarrow> ('c, 'i) cost_row list
     \<Rightarrow> py_error + ('i \<times> rat \<times> rat \<times> rat) list" where
  "gap_entries cost_func exact_df heuristic_df =
     (let exact_data = filter (\<lambda>r. cost_function r = cost_func) exact_df;
          heuristic_data = filter (\<lambda>r. cost_function r = cost_func) heuristic_df;
          common_instances =
            sorted_common (map instance_name exact_data) (map instance_name heuristic_data)
      in if common_instances = [] then Inr []
         else gap_loop exact_data heuristic_data common_instances)"

text \<open>
  What one pass of the loop contributes for an instance, read off the frames directly:
  the first exact row of the instance and the least heuristic cost present decide the
  entry.
\<close>

definition gap_entry ::
  "('c, 'i) cost_row list \<Rightarrow> ('c, 'i) cost_row list \<Rightarrow> 'i \<Rightarrow> ('i \<times> rat \<times> rat \<times> rat) option" where
  "gap_entry exact_data heuristic_data inst =
     (case (find (\<lambda>r. instance_name r = inst) exact_data,
            series_min (map cost_value (filter (\<lambda>r. instance_name r = inst) heuristic_data))) of
        (Some r0, Some h) \<Rightarrow>
          (case cost_value r0 of
             Some e \<Rightarrow> if e > 0 then Some (inst, e, h, ((h - e) / e) * 100) else None
           | None \<Rightarrow> None)
      | _ \<Rightarrow> None)"

section \<open>Normalising result artifacts (scripts/aggregate\_results.py)\<close>

text \<open>
  A value read by \<^verbatim>\<open>json.load\<close>. \<open>JNull\<close> is Python's \<^verbatim>\<open>None\<close>, which is also what
  \<^verbatim>\<open>j.get(key)\<close> returns for a missing key.
\<close>

datatype json =
    JNull
  | JBool bool
  | JInt int
  | JFloat rat
  | JStr string
  | JArr "json list"
  | JObj "(string \<times> json) list"

text \<open>Python truth value testing, which \<^verbatim>\<open>or\<close>, \<^verbatim>\<open>not\<close> and \<^verbatim>\<open>if\<close> apply.\<close>

fun truthy :: "json \<Rightarrow> bool" where
  "truthy JNull = False"
| "truthy (JBool b) = b"
| "truthy (JInt n) = (n \<noteq> 0)"
| "truthy (JFloat x) = (x \<noteq> 0)"
| "truthy (JStr s) = (s \<noteq> [])"
| "truthy (JArr vs) = (vs \<noteq> [])"
| "truthy (JObj kvs) = (kvs \<noteq> [])"

text \<open>\<^verbatim>\<open>a or b\<close>: the left operand when it is true, else the right one.\<close>

definition py_or :: "json \<Rightarrow> json \<Rightarrow> json" where
  "py_or a b = (if truthy a then a else b)"

text \<open>The payload \<^verbatim>\<open>j\<close> is a JSON object; \<^verbatim>\<open>j.get(key)\<close>.\<close>

type_synonym payload = "(string \<times> json) list"

definition get :: "payload \<Rightarrow> string \<Rightarrow> json" where
  "get j key = (case map_of j key of None \<Rightarrow> JNull | Some v \<Rightarrow> v)"

subsection \<open>Strings and paths\<close>

text \<open>\<^verbatim>\<open>s.split(c)\<close>: the pieces between the occurrences of \<open>c\<close>, one more than there
  are occurrences.\<close>

fun split_on :: "char \<Rightarrow> string \<Rightarrow> string list" where
  "split_on c [] = [] # []"
| "split_on c (x # xs) =
     (if x = c then [] # split_on c xs
      else (case split_on c xs of [] \<Rightarrow> [x] # [] | piece # pieces \<Rightarrow> (x # piece) # pieces))"

definition startswith :: "string \<Rightarrow> string \<Rightarrow> bool" where
  "startswith s pre = (take (length pre) s = pre)"


text \<open>\<^verbatim>\<open>name.rfind('.')\<close>: the position of the last dot, if any.\<close>

fun rfind_dot :: "string \<Rightarrow> nat option" where
  "rfind_dot [] = None"
| "rfind_dot (x # xs) =
     (case rfind_dot xs of
        Some i \<Rightarrow> Some (Suc i)
      | None \<Rightarrow> if x = CHR ''.'' then Some 0 else None)"

text \<open>
  A path is the list of its components (\<^verbatim>\<open>jf.parts\<close>); the last one is the file name.
  \<^verbatim>\<open>jf.stem\<close> is the name without its last suffix, where a dot that opens or closes the
  name starts no suffix (pathlib's rule).
\<close>

type_synonym path = "string list"

definition path_name :: "path \<Rightarrow> string" where
  "path_name parts = (if parts = [] then [] else last parts)"

definition stem :: "path \<Rightarrow> string" where
  "stem parts =
     (let name = path_name parts
      in case rfind_dot name of
           None \<Rightarrow> name
         | Some i \<Rightarrow> if 0 < i \<and> i < length name - 1 then take i name else name)"

subsection \<open>The fields of a row\<close>

text \<open>Line 18. The conditional expression binds weaker than \<^verbatim>\<open>or\<close>: the whole chain is
  its first branch.\<close>

definition alg :: "payload \<Rightarrow> path \<Rightarrow> json" where
  "alg j jf =
     (if CHR ''_'' \<in> set (stem jf)
      then py_or (py_or (get j ''algorithm'') (get j ''Algorithm''))
                 (JStr (split_on CHR ''_'' (stem jf) ! 1))
      else JStr (stem jf))"





section \<open>Best result per alpha (scripts/aggregate\_quadratic\_results.py)\<close>

text \<open>
  A row of the sweep frame: the alpha of its folder, the algorithm name and the
  objective (\<open>None\<close> when the artifact has none). The rows stand in the order in which
  the artifacts were read; the frame's index is their position.
\<close>

datatype sweep_row = SweepRow (alpha: rat) (algorithm: string) (objective: "rat option")

text \<open>
  \<^verbatim>\<open>series.idxmax()\<close>: the position of the largest value present, the first one when
  several positions hold it; no position when no value is present.
\<close>

definition idxmax :: "rat option list \<Rightarrow> nat option" where
  "idxmax vs =
     (case List.map_filter (\<lambda>v. v) vs of
        [] \<Rightarrow> None
      | p # ps \<Rightarrow> Some (length (takeWhile (\<lambda>v. v \<noteq> Some (fold max ps p)) vs)))"

text \<open>
  The function applied to each group, \<^verbatim>\<open>g.loc[g['objective'].idxmax()]\<close>. With no
  objective in the group there is no label to look up and pandas raises (KeyError for
  the label NaN, ValueError in later versions).
\<close>

definition best_of_group :: "sweep_row list \<Rightarrow> py_error + sweep_row" where
  "best_of_group g =
     (case idxmax (map objective g) of None \<Rightarrow> Inl KeyError | Some i \<Rightarrow> Inr (g ! i))"

text \<open>\<^verbatim>\<open>groupby('alpha').apply(...)\<close> over the group keys in ascending order; each group
  keeps the order of the frame. The first group that raises ends the run.\<close>

fun apply_groups :: "sweep_row list \<Rightarrow> rat list \<Rightarrow> py_error + sweep_row list" where
  "apply_groups df [] = Inr []"
| "apply_groups df (a # keys) =
     (case best_of_group (filter (\<lambda>r. alpha r = a) df) of
        Inl err \<Rightarrow> Inl err
      | Inr b \<Rightarrow> (case apply_groups df keys of Inl err \<Rightarrow> Inl err | Inr bs \<Rightarrow> Inr (b # bs)))"

definition best_per_alpha :: "sweep_row list \<Rightarrow> py_error + sweep_row list" where
  "best_per_alpha df = apply_groups df (sort (remdups (map alpha df)))"

section \<open>Canonical algorithm names\<close>

text \<open>
  Characters are code points below 256. \<^verbatim>\<open>sub in s\<close> is the substring test;
  \<^verbatim>\<open>s.lower()\<close> maps the letters A to Z to a to z (the labels and patterns below are
  ASCII).
\<close>

fun contains :: "string \<Rightarrow> string \<Rightarrow> bool" where
  "contains [] sub = (sub = [])"
| "contains (c # cs) sub = (startswith (c # cs) sub \<or> contains cs sub)"

definition lower_char :: "char \<Rightarrow> char" where
  "lower_char c =
     (case map_of (zip ''ABCDEFGHIJKLMNOPQRSTUVWXYZ'' ''abcdefghijklmnopqrstuvwxyz'') c of
        Some l \<Rightarrow> l
      | None \<Rightarrow> c)"

definition lower :: "string \<Rightarrow> string" where
  "lower s = map lower_char s"

subsection \<open>normalize\_algo (report/analyze\_and\_plot.py)\<close>

text \<open>The name is a string, or missing (NaN, \<open>None\<close>), which is returned as it is.\<close>

definition normalize_algo :: "string option \<Rightarrow> string option" where
  "normalize_algo name =
     (case name of
        None \<Rightarrow> None
      | Some n \<Rightarrow>
          (let s = lower n in
           if contains s ''exact'' \<or> contains s ''gurobi'' then Some ''Exact''
           else if contains s ''memetic'' then Some ''Memetic''
           else if contains s ''genetic'' \<or> s = ''ga''
                   \<or> (contains s ''ga'' \<and> \<not> contains s ''m'') then Some ''GA''
           else if contains s ''mmas'' then Some ''MMAS''
           else if contains s ''aco'' \<and> \<not> contains s ''mmas'' then Some ''ACO''
           else if contains s ''hybrid'' then Some ''Hybrid''
           else if s \<in> set [''nn'', ''nnheuristic'', ''nearestneighbor''] then Some ''NN''
           else Some n))"

subsection \<open>alg\_short (scripts/compare\_linear\_quadratic.py)\<close>

definition is_digit :: "char \<Rightarrow> bool" where
  "is_digit c = (let n = (of_char c :: nat) in 48 \<le> n \<and> n \<le> 57)"

text \<open>The characters that \<^verbatim>\<open>strip()\<close> removes: Python's whitespace below 256.\<close>

definition is_space :: "char \<Rightarrow> bool" where
  "is_space c = ((of_char c :: nat) \<in> set [9, 10, 11, 12, 13, 28, 29, 30, 31, 32, 133, 160])"

text \<open>
  \<^verbatim>\<open>str.replace('-run\d+', '', regex=True)\<close>: scanning from the left, every match of
  \<^verbatim>\<open>-run\<close> followed by its longest run of digits (at least one) is dropped, and the
  scan goes on behind the match. \<open>run_digit_next\<close> tests what follows a hyphen.
\<close>

definition run_digit_next :: "string \<Rightarrow> bool" where
  "run_digit_next cs = (startswith cs ''run'' \<and> drop 3 cs \<noteq> [] \<and> is_digit (hd (drop 3 cs)))"

function regex_remove_run :: "string \<Rightarrow> string" where
  "regex_remove_run [] = []"
| "regex_remove_run (c # cs) =
     (if c = CHR ''-'' \<and> run_digit_next cs
      then regex_remove_run (dropWhile is_digit (drop 3 cs))
      else c # regex_remove_run cs)"
  by pat_completeness auto
termination
proof (relation "measure length")
  show "wf (measure length)" by simp
next
  fix c :: char and cs :: string
  have "length (dropWhile is_digit (drop 3 cs)) \<le> length (drop 3 cs)"
    by (rule length_dropWhile_le)
  then show "(dropWhile is_digit (drop 3 cs), c # cs) \<in> measure length" by simp
next
  fix c :: char and cs :: string
  show "(cs, c # cs) \<in> measure length" by simp
qed

text \<open>\<^verbatim>\<open>.str.replace('"', '')\<close> and \<^verbatim>\<open>.str.strip()\<close>.\<close>

definition remove_quotes :: "string \<Rightarrow> string" where
  "remove_quotes s = filter (\<lambda>c. c \<noteq> CHR 0x22) s"

definition strip :: "string \<Rightarrow> string" where
  "strip s = rev (dropWhile is_space (rev (dropWhile is_space s)))"

text \<open>Line 20.\<close>

definition alg_short :: "string \<Rightarrow> string" where
  "alg_short algorithm_name = strip (remove_quotes (regex_remove_run algorithm_name))"

text \<open>
  A name is canonical for \<open>alg_short\<close> when it holds no run tag (\<^verbatim>\<open>-run\<close> and a digit
  at some position), no double quote, and neither starts nor ends with whitespace.
\<close>

fun has_run_tag :: "string \<Rightarrow> bool" where
  "has_run_tag [] = False"
| "has_run_tag (c # cs) = ((c = CHR ''-'' \<and> run_digit_next cs) \<or> has_run_tag cs)"

definition canonical :: "string \<Rightarrow> bool" where
  "canonical s =
     (\<not> has_run_tag s \<and> CHR 0x22 \<notin> set s
      \<and> (s \<noteq> [] \<longrightarrow> \<not> is_space (hd s) \<and> \<not> is_space (last s)))"

section \<open>Statistics per algorithm (scripts/aggregate\_results.py, scripts/prepare\_results\_for\_plots.py)\<close>








section \<open>Running the solver (scripts/run\_benchmarks.py)\<close>

text \<open>
  The solver is an external program. What the runner can observe of one invocation is
  whether the process exits, after how many seconds, and with which return code; a hung
  process never exits. The program itself is a parameter: a function from the command
  line to this behaviour.
\<close>

datatype process = Exits nat int | Hangs

datatype arg = S string | I int | F rat




text \<open>
  \<^verbatim>\<open>subprocess.check_call(cmd, timeout=...)\<close>: wait for the process; return on return
  code 0, raise CalledProcessError otherwise. With a timeout, a process still running
  after that many seconds is killed and TimeoutExpired is raised. Without one, the call
  returns only when the process exits: on a hung process it never returns, which is the
  value \<open>None\<close>.
\<close>

datatype call_result = Returned | CalledProcessError int | TimeoutExpired

fun check_call :: "nat option \<Rightarrow> process \<Rightarrow> call_result option" where
  "check_call None Hangs = None"
| "check_call (Some t) Hangs = Some TimeoutExpired"
| "check_call timeout (Exits d rc) =
     (if (case timeout of None \<Rightarrow> False | Some t \<Rightarrow> t < d) then Some TimeoutExpired
      else if rc = 0 then Some Returned
      else Some (CalledProcessError rc))"

text \<open>Lines 41 to 50: \<^verbatim>\<open>run\<close> calls \<^verbatim>\<open>check_call\<close> with the command and the log files,
  and passes no timeout.\<close>

definition run :: "(arg list \<Rightarrow> process) \<Rightarrow> arg list \<Rightarrow> call_result option" where
  "run solver c = check_call None (solver c)"








section \<open>Pareto front: proofs\<close>

subsection \<open>Properties of the loops\<close>

lemma dominates_irrefl: "\<not> dominates p p"
  by (cases p) simp

lemma dominates_trans: "dominates a b \<Longrightarrow> dominates b c \<Longrightarrow> dominates a c"
  by (cases a; cases b; cases c) auto

lemma inner_loop_iff:
  "inner_loop i p es = (\<exists>(j, q) \<in> set es. j \<noteq> i \<and> dominates q p)"
  by (induction es) (auto split: if_splits)

lemma outer_loop_filter:
  "outer_loop pts idxs es =
     map (\<lambda>(i, p). idxs ! i) (filter (\<lambda>(i, p). \<not> inner_loop i p (enumerate 0 pts)) es)"
  by (induction es) auto

lemma inner_loop_enumerate:
  assumes "i < length pts"
  shows "inner_loop i (pts ! i) (enumerate 0 pts) = (\<exists>q \<in> set pts. dominates q (pts ! i))"
proof
  assume "inner_loop i (pts ! i) (enumerate 0 pts)"
  then obtain j q where "(j, q) \<in> set (enumerate 0 pts)" "dominates q (pts ! i)"
    by (auto simp: inner_loop_iff)
  then show "\<exists>q \<in> set pts. dominates q (pts ! i)"
    by (auto simp: in_set_enumerate_eq)
next
  assume "\<exists>q \<in> set pts. dominates q (pts ! i)"
  then obtain q where q: "q \<in> set pts" "dominates q (pts ! i)" by blast
  then obtain j where j: "j < length pts" "pts ! j = q"
    by (auto simp: in_set_conv_nth)
  with q have "j \<noteq> i" using dominates_irrefl by metis
  with j q show "inner_loop i (pts ! i) (enumerate 0 pts)"
    by (auto simp: inner_loop_iff in_set_enumerate_eq intro!: bexI [of _ "(j, q)"])
qed

lemma enum_labels:
  "map (\<lambda>(i, p). (map fst (xs @ ys)) ! i) (filter (\<lambda>(i, p). P p) (enumerate (length xs) (map snd ys)))
   = map fst (filter (\<lambda>(l, p). P p) ys)"
proof (induction ys arbitrary: xs)
  case Nil
  then show ?case by simp
next
  case (Cons y ys)
  have "map (\<lambda>(i, p). (map fst ((xs @ [y]) @ ys)) ! i)
          (filter (\<lambda>(i, p). P p) (enumerate (length (xs @ [y])) (map snd ys)))
        = map fst (filter (\<lambda>(l, p). P p) ys)"
    by (rule Cons.IH)
  then show ?case
    by (cases y) (simp add: nth_append)
qed

lemma outer_loop_labels:
  "outer_loop (map snd sub) (map fst sub) (enumerate 0 (map snd sub))
   = map fst (filter (\<lambda>(l, p). \<not> (\<exists>q \<in> set (map snd sub). dominates q p)) sub)"
proof -
  let ?pts = "map snd sub"
  have "filter (\<lambda>(i, p). \<not> inner_loop i p (enumerate 0 ?pts)) (enumerate 0 ?pts)
      = filter (\<lambda>(i, p). \<not> (\<exists>q \<in> set ?pts. dominates q p)) (enumerate 0 ?pts)"
  proof (rule filter_cong [OF refl])
    fix e assume "e \<in> set (enumerate 0 ?pts)"
    then have "(fst e, snd e) \<in> set (enumerate 0 ?pts)" by simp
    then have "fst e < length ?pts \<and> snd e = ?pts ! fst e"
      unfolding in_set_enumerate_eq by simp
    then obtain i where "i < length ?pts" "e = (i, ?pts ! i)"
      by (metis prod.collapse)
    then show "(case e of (i, p) \<Rightarrow> \<not> inner_loop i p (enumerate 0 ?pts))
             = (case e of (i, p) \<Rightarrow> \<not> (\<exists>q \<in> set ?pts. dominates q p))"
      using inner_loop_enumerate [of i ?pts] by simp
  qed
  then show ?thesis
    using enum_labels [of "[]" sub "\<lambda>p. \<not> (\<exists>q \<in> set ?pts. dominates q p)"]
    by (simp add: outer_loop_filter del: set_map)
qed

lemma dropna_map:
  "dropna df = map (\<lambda>r. (label r, the (point r))) (filter complete df)"
  by (induction df rule: dropna.induct) auto

lemma point_complete: "complete r \<longleftrightarrow> point r \<noteq> None"
  by (cases r rule: complete.cases) auto

lemma loc_distinct:
  "distinct (map label df) \<Longrightarrow> r \<in> set df \<Longrightarrow> filter (\<lambda>r'. label r' = label r) df = [r]"
proof (induction df)
  case Nil
  then show ?case by simp
next
  case (Cons a df)
  then show ?case
    by (auto simp: filter_empty_conv image_iff)
qed

lemma loc_filter:
  assumes "distinct (map label df)"
  shows "loc df (map label (filter R df)) = filter R df"
proof -
  have "set sel \<subseteq> set df \<Longrightarrow> loc df (map label sel) = sel" for sel
  proof (induction sel)
    case Nil
    then show ?case by (simp add: loc_def)
  next
    case (Cons a sel)
    then show ?case using loc_distinct [OF assms, of a]
      by (simp add: loc_def)
  qed
  then show ?thesis by simp
qed

lemma pareto_front_filter:
  assumes "distinct (map label df)"
  shows "pareto_front df = filter (\<lambda>r. complete r \<and> \<not> (\<exists>q \<in> set df. row_dominates q r)) df"
proof -
  let ?sub = "dropna df"
  have pts: "set (map snd ?sub) = {p. \<exists>q \<in> set df. point q = Some p}"
    by (force simp: dropna_map point_complete)
  have dom: "complete r \<Longrightarrow>
      (\<exists>q \<in> set (map snd ?sub). dominates q (the (point r))) = (\<exists>q \<in> set df. row_dominates q r)" for r
    unfolding pts
    by (cases "point r") (fastforce simp: point_complete row_dominates_def split: option.splits simp del: dominates.simps)+
  have "filter (\<lambda>r. \<not> (\<exists>q \<in> set (map snd ?sub). dominates q (the (point r)))) (filter complete df)
      = filter (\<lambda>r. complete r \<and> \<not> (\<exists>q \<in> set df. row_dominates q r)) df"
    unfolding filter_filter
    by (rule filter_cong [OF refl]) (use dom in blast)
  then have "map fst (filter (\<lambda>(l, p). \<not> (\<exists>q \<in> set (map snd ?sub). dominates q p)) ?sub)
      = map label (filter (\<lambda>r. complete r \<and> \<not> (\<exists>q \<in> set df. row_dominates q r)) df)"
    by (subst (2) dropna_map) (simp add: filter_map comp_def del: set_map)
  then show ?thesis
    using loc_filter [OF assms]
    by (simp add: pareto_front_def Let_def outer_loop_labels del: set_map)
qed

lemma row_dominates_irrefl: "\<not> row_dominates p p"
  by (auto simp: row_dominates_def dominates_irrefl split: option.splits simp del: dominates.simps)

lemma row_dominates_trans: "row_dominates a b \<Longrightarrow> row_dominates b c \<Longrightarrow> row_dominates a c"
  by (auto simp: row_dominates_def split: option.splits simp del: dominates.simps
      intro: dominates_trans)

lemma row_dominates_complete: "row_dominates q p \<Longrightarrow> complete q \<and> complete p"
  by (auto simp: row_dominates_def point_complete split: option.splits)

lemma dominated_by_minimal:
  assumes "q \<in> set df" "row_dominates q p"
  shows "\<exists>f \<in> set df. row_dominates f p \<and> \<not> (\<exists>g \<in> set df. row_dominates g f)"
  using assms
proof (induction "card {g \<in> set df. row_dominates g q}" arbitrary: q rule: less_induct)
  case less
  show ?case
  proof (cases "\<exists>g \<in> set df. row_dominates g q")
    case False
    with less.prems show ?thesis by blast
  next
    case True
    then obtain g where g: "g \<in> set df" "row_dominates g q" by blast
    have "{h \<in> set df. row_dominates h g} \<subset> {h \<in> set df. row_dominates h q}"
      using g row_dominates_trans [of _ g q] row_dominates_irrefl [of g] by blast
    then have "card {h \<in> set df. row_dominates h g} < card {h \<in> set df. row_dominates h q}"
      by (simp add: psubset_card_mono)
    moreover have "row_dominates g p"
      using g less.prems row_dominates_trans by blast
    ultimately show ?thesis
      using less.hyps [of g] g by blast
  qed
qed

text \<open>
  Claim C1. For a frame whose index labels are distinct (every frame the script passes:
  the result of \<^verbatim>\<open>reset_index()\<close> or a selection of a freshly read CSV),
  \<open>pareto_front\<close> returns rows of its input; a row is returned exactly when it has
  both values and no row of the input dominates it (a row never dominates itself, so
  "no other row" and "no row" agree); no returned row dominates another returned row;
  every row with both values that is not returned is dominated by a returned row; and on
  the points (1,10), (2,5), (3,5) the result is (1,10), (2,5). Rows lacking a value are
  no points: \<^verbatim>\<open>dropna()\<close> removes them before the comparison.
\<close>

theorem pareto_front_correct:
  assumes "distinct (map label df)"
  shows "set (pareto_front df) \<subseteq> set df
       \<and> (\<forall>p. p \<in> set (pareto_front df) \<longleftrightarrow>
               p \<in> set df \<and> complete p \<and> \<not> (\<exists>q \<in> set df. row_dominates q p))
       \<and> (\<forall>p \<in> set (pareto_front df). \<forall>q \<in> set (pareto_front df). \<not> row_dominates q p)
       \<and> (\<forall>p \<in> set df. complete p \<and> p \<notin> set (pareto_front df) \<longrightarrow>
               (\<exists>q \<in> set (pareto_front df). row_dominates q p))
       \<and> pareto_front [Row (0::nat) (Some (1::rat)) (Some 10), Row 1 (Some 2) (Some 5),
                        Row 2 (Some 3) (Some 5)]
           = [Row 0 (Some 1) (Some 10), Row 1 (Some 2) (Some 5)]"
proof -
  note pf = pareto_front_filter [OF assms]
  have mem: "p \<in> set (pareto_front df) \<longleftrightarrow>
        p \<in> set df \<and> complete p \<and> \<not> (\<exists>q \<in> set df. row_dominates q p)" for p
    by (auto simp: pf)
  have sub: "set (pareto_front df) \<subseteq> set df"
    using mem by blast
  have internal: "\<forall>p \<in> set (pareto_front df). \<forall>q \<in> set (pareto_front df). \<not> row_dominates q p"
    using mem by blast
  have outside: "\<exists>q \<in> set (pareto_front df). row_dominates q p"
    if "p \<in> set df" "complete p" "p \<notin> set (pareto_front df)" for p
  proof -
    from that mem obtain q where "q \<in> set df" "row_dominates q p" by blast
    then obtain f where f: "f \<in> set df" "row_dominates f p" "\<not> (\<exists>g \<in> set df. row_dominates g f)"
      using dominated_by_minimal by blast
    then have "f \<in> set (pareto_front df)"
      using mem row_dominates_complete by blast
    with f show ?thesis by blast
  qed
  have example: "pareto_front [Row (0::nat) (Some (1::rat)) (Some 10), Row 1 (Some 2) (Some 5),
                        Row 2 (Some 3) (Some 5)]
           = [Row 0 (Some 1) (Some 10), Row 1 (Some 2) (Some 5)]"
    by (simp add: pareto_front_def loc_def enumerate_eq_zip upt_rec)
  from sub mem internal outside example show ?thesis by blast
qed

text \<open>The theorem at the frame of the example: its labels are distinct, and the row
  (3,5) that is left out is dominated by the returned row (2,5).\<close>

theorem pareto_front_correct_witness:
  "distinct (map label [Row (0::nat) (Some (1::rat)) (Some 10), Row 1 (Some 2) (Some 5),
                        Row 2 (Some 3) (Some 5)])
   \<and> set (pareto_front [Row (0::nat) (Some (1::rat)) (Some 10), Row 1 (Some 2) (Some 5),
                        Row 2 (Some 3) (Some 5)])
       = {Row 0 (Some 1) (Some 10), Row 1 (Some 2) (Some 5)}
   \<and> Row 2 (Some 3) (Some 5) \<notin> set (pareto_front [Row (0::nat) (Some (1::rat)) (Some 10),
                        Row 1 (Some 2) (Some 5), Row 2 (Some 3) (Some 5)])
   \<and> row_dominates (Row (1::nat) (Some (2::rat)) (Some 5)) (Row (2::nat) (Some 3) (Some 5))"
proof -
  let ?df = "[Row (0::nat) (Some (1::rat)) (Some 10), Row 1 (Some 2) (Some 5),
              Row 2 (Some 3) (Some 5)]"
  have d: "distinct (map label ?df)" by simp
  from pareto_front_correct [OF d]
  have "pareto_front ?df = [Row 0 (Some 1) (Some 10), Row 1 (Some 2) (Some 5)]" by blast
  then show ?thesis by (simp add: row_dominates_def)
qed

section \<open>Load profile: proofs\<close>









section \<open>Gap to the exact solver: proofs\<close>

lemma iloc0_find:
  "iloc0 (map f (filter P xs)) = (case find P xs of None \<Rightarrow> Inl IndexError | Some r \<Rightarrow> Inr (f r))"
  by (induction xs) auto

lemma find_Some_mem: "x \<in> set xs \<Longrightarrow> P x \<Longrightarrow> \<exists>y. find P xs = Some y"
  by (induction xs) auto

lemma gap_loop_map_filter:
  assumes "\<forall>inst \<in> set insts. \<exists>r \<in> set exact_data. instance_name r = inst"
  shows "gap_loop exact_data heuristic_data insts
           = Inr (List.map_filter (gap_entry exact_data heuristic_data) insts)"
  using assms
proof (induction insts)
  case Nil
  then show ?case by (simp add:)
next
  case (Cons inst insts)
  then obtain r where "r \<in> set exact_data" "instance_name r = inst" by auto
  then obtain r0 where r0: "find (\<lambda>r. instance_name r = inst) exact_data = Some r0"
    using find_Some_mem [of r exact_data "\<lambda>r. instance_name r = inst"] by blast
  from Cons have IH: "gap_loop exact_data heuristic_data insts
           = Inr (List.map_filter (gap_entry exact_data heuristic_data) insts)" by simp
  have entry: "gap_entry exact_data heuristic_data inst =
      (case (cost_value r0,
             series_min (map cost_value (filter (\<lambda>r. instance_name r = inst) heuristic_data))) of
         (Some e, Some h) \<Rightarrow> if e > 0 then Some (inst, e, h, ((h - e) / e) * 100) else None
       | _ \<Rightarrow> None)"
    by (simp add: gap_entry_def r0 split: option.splits)
  show ?case
    by (simp add: iloc0_find r0 IH Let_def entry split: option.splits)
qed

lemma set_sorted_common: "set (sorted_common a b) = set a \<inter> set b"
  by (auto simp: sorted_common_def)

lemma distinct_sorted_common: "distinct (sorted_common a b)"
  by (simp add: sorted_common_def)

lemma gap_entry_fst: "gap_entry ed hdata inst = Some t \<Longrightarrow> fst t = inst"
  by (auto simp: gap_entry_def split: option.splits if_splits)

lemma set_map_filter: "set (List.map_filter f xs) = {y. \<exists>x \<in> set xs. f x = Some y}"
  by (induction xs) (auto simp: split: option.splits)

lemma gap_entries_map_filter:
  "gap_entries cfn exact_df heuristic_df =
     Inr (List.map_filter
           (gap_entry (filter (\<lambda>r. cost_function r = cfn) exact_df)
                      (filter (\<lambda>r. cost_function r = cfn) heuristic_df))
           (sorted_common
              (map instance_name (filter (\<lambda>r. cost_function r = cfn) exact_df))
              (map instance_name (filter (\<lambda>r. cost_function r = cfn) heuristic_df))))"
proof -
  let ?ed = "filter (\<lambda>r. cost_function r = cfn) exact_df"
  let ?hd = "filter (\<lambda>r. cost_function r = cfn) heuristic_df"
  let ?common = "sorted_common (map instance_name ?ed) (map instance_name ?hd)"
  have "\<forall>inst \<in> set ?common. \<exists>r \<in> set ?ed. instance_name r = inst"
    unfolding set_sorted_common by auto
  from gap_loop_map_filter [OF this]
  show ?thesis
    by (simp add: gap_entries_def Let_def del: set_filter)
qed

lemma series_min_Min:
  "series_min vs = (if {v. Some v \<in> set vs} = {} then None else Some (Min {v. Some v \<in> set vs}))"
proof -
  have s: "set (List.map_filter (\<lambda>v. v) vs) = {v. Some v \<in> set vs}"
    by (auto simp: set_map_filter)
  show ?thesis
  proof (cases "List.map_filter (\<lambda>v. v) vs")
    case Nil
    with s show ?thesis by (simp add: series_min_def)
  next
    case (Cons x xs)
    with s have "{v. Some v \<in> set vs} = set (x # xs)" by simp
    then show ?thesis
      by (simp add: series_min_def Cons Max.set_eq_fold Min.set_eq_fold del: set_simps)
  qed
qed

lemma find_filter: "find P (filter Q xs) = find (\<lambda>x. Q x \<and> P x) xs"
  by (induction xs) auto

lemma map_fst_map_filter:
  assumes "\<And>x t. f x = Some t \<Longrightarrow> fst t = x"
  shows "map fst (List.map_filter f xs) = filter (\<lambda>x. f x \<noteq> None) xs"
  using assms by (induction xs) (auto simp: split: option.splits)

text \<open>
  Claim C3. Take a cost function and an instance for which the exact frame has a row
  (\<open>r0\<close> is the first one, the row \<^verbatim>\<open>iloc[0]\<close> reads) and the heuristic frame has at
  least one row. The loop never raises. The instance has at most one entry in the gap
  list, and it has the entry \<open>(e, h, g)\<close> exactly when the exact cost \<open>e\<close> is present
  and positive, \<open>h\<close> is the least heuristic cost present, and
  \<open>g = (h - e) / e * 100\<close>. When the exact cost is missing, zero or negative the
  instance has no entry at all: the gap is neither set to zero nor an error. Exact cost
  100 and best heuristic cost 115 give the gap 15; exact cost 0 gives no entry.
\<close>

theorem gap_defined_iff_exact_positive:
  fixes exact_df heuristic_df :: "('c, 'i::linorder) cost_row list"
  assumes ex: "find (\<lambda>r. cost_function r = cfn \<and> instance_name r = inst) exact_df = Some r0"
      and he: "\<exists>r \<in> set heuristic_df. cost_function r = cfn \<and> instance_name r = inst"
  shows "\<exists>entries.
      gap_entries cfn exact_df heuristic_df = Inr entries
    \<and> distinct (map fst entries)
    \<and> (\<forall>e h g. (inst, e, h, g) \<in> set entries \<longleftrightarrow>
          cost_value r0 = Some e \<and> e > 0
        \<and> (\<exists>r \<in> set heuristic_df. cost_function r = cfn \<and> instance_name r = inst \<and> cost_value r = Some h)
        \<and> (\<forall>r \<in> set heuristic_df. \<forall>v. cost_function r = cfn \<and> instance_name r = inst \<and> cost_value r = Some v
               \<longrightarrow> h \<le> v)
        \<and> g = (h - e) / e * 100)
    \<and> (\<not> (\<exists>e. cost_value r0 = Some e \<and> e > 0) \<longrightarrow> inst \<notin> fst ` set entries)
    \<and> gap_entries ''distance'' [CostRow ''distance'' (1::nat) (Some 100)]
          [CostRow ''distance'' 1 (Some 115)] = Inr [(1, 100, 115, 15)]
    \<and> gap_entries ''distance'' [CostRow ''distance'' (1::nat) (Some 0)]
          [CostRow ''distance'' 1 (Some 115)] = Inr []"
proof -
  let ?ed = "filter (\<lambda>r. cost_function r = cfn) exact_df"
  let ?hd = "filter (\<lambda>r. cost_function r = cfn) heuristic_df"
  let ?common = "sorted_common (map instance_name ?ed) (map instance_name ?hd)"
  let ?entries = "List.map_filter (gap_entry ?ed ?hd) ?common"
  let ?H = "{v. \<exists>r \<in> set heuristic_df. cost_function r = cfn \<and> instance_name r = inst \<and> cost_value r = Some v}"
  have run: "gap_entries cfn exact_df heuristic_df = Inr ?entries"
    by (rule gap_entries_map_filter)
  have dist: "distinct (map fst ?entries)"
    by (simp add: map_fst_map_filter [of "gap_entry ?ed ?hd", OF gap_entry_fst]
        distinct_sorted_common)
  have r0_mem: "r0 \<in> set exact_df" "cost_function r0 = cfn" "instance_name r0 = inst"
    using ex by (auto simp: find_Some_iff)
  have "r0 \<in> set ?ed" using r0_mem by simp
  then have c1: "inst \<in> set (map instance_name ?ed)"
    using r0_mem(3) by (metis image_eqI set_map)
  from he obtain hr where "hr \<in> set ?hd" "instance_name hr = inst" by auto
  then have c2: "inst \<in> set (map instance_name ?hd)"
    by (metis image_eqI set_map)
  have common: "inst \<in> set ?common"
    unfolding set_sorted_common using c1 c2 by blast
  have find_ed: "find (\<lambda>r. instance_name r = inst) ?ed = Some r0"
    using ex by (simp add: find_filter)
  have Hset: "{v. Some v \<in> set (map cost_value (filter (\<lambda>r. instance_name r = inst) ?hd))} = ?H"
    by force
  have finH: "finite ?H"
  proof -
    have "?H \<subseteq> (\<lambda>r. the (cost_value r)) ` set heuristic_df" by force
    then show ?thesis by (rule finite_subset) simp
  qed
  have smin: "series_min (map cost_value (filter (\<lambda>r. instance_name r = inst) ?hd))
                = (if ?H = {} then None else Some (Min ?H))"
    unfolding series_min_Min Hset ..
  have entry: "gap_entry ?ed ?hd inst = Some (inst, e, h, g) \<longleftrightarrow>
      cost_value r0 = Some e \<and> e > 0 \<and> ?H \<noteq> {} \<and> h = Min ?H \<and> g = (h - e) / e * 100" for e h g
    unfolding gap_entry_def find_ed smin
    by (auto split: option.splits)
  have minH: "(?H \<noteq> {} \<and> h = Min ?H) \<longleftrightarrow> (h \<in> ?H \<and> (\<forall>v \<in> ?H. h \<le> v))" for h
    using finH by (metis (no_types, lifting) Min_eqI Min_in Min_le empty_iff)
  have mem: "(inst, e, h, g) \<in> set ?entries \<longleftrightarrow>
      gap_entry ?ed ?hd inst = Some (inst, e, h, g)" for e h g
  proof
    assume "(inst, e, h, g) \<in> set ?entries"
    then obtain x where "gap_entry ?ed ?hd x = Some (inst, e, h, g)"
      unfolding set_map_filter by blast
    moreover from this have "x = inst" using gap_entry_fst by fastforce
    ultimately show "gap_entry ?ed ?hd inst = Some (inst, e, h, g)" by simp
  next
    assume "gap_entry ?ed ?hd inst = Some (inst, e, h, g)"
    with common show "(inst, e, h, g) \<in> set ?entries"
      unfolding set_map_filter by blast
  qed
  have iff: "(inst, e, h, g) \<in> set ?entries \<longleftrightarrow>
          cost_value r0 = Some e \<and> e > 0
        \<and> (\<exists>r \<in> set heuristic_df. cost_function r = cfn \<and> instance_name r = inst \<and> cost_value r = Some h)
        \<and> (\<forall>r \<in> set heuristic_df. \<forall>v. cost_function r = cfn \<and> instance_name r = inst \<and> cost_value r = Some v
               \<longrightarrow> h \<le> v)
        \<and> g = (h - e) / e * 100" for e h g
  proof -
    have "(h \<in> ?H \<and> (\<forall>v \<in> ?H. h \<le> v)) \<longleftrightarrow>
         ((\<exists>r \<in> set heuristic_df. cost_function r = cfn \<and> instance_name r = inst \<and> cost_value r = Some h)
        \<and> (\<forall>r \<in> set heuristic_df. \<forall>v. cost_function r = cfn \<and> instance_name r = inst \<and> cost_value r = Some v
               \<longrightarrow> h \<le> v))"
      by blast
    with minH [of h] mem [of e h g] entry [of e h g] show ?thesis by blast
  qed
  have omitted: "inst \<notin> fst ` set ?entries" if "\<not> (\<exists>e. cost_value r0 = Some e \<and> e > 0)"
  proof
    assume "inst \<in> fst ` set ?entries"
    then obtain e h g where "(inst, e, h, g) \<in> set ?entries" by force
    with iff that show False by blast
  qed
  have ex1: "gap_entries ''distance'' [CostRow ''distance'' (1::nat) (Some 100)]
          [CostRow ''distance'' 1 (Some 115)] = Inr [(1, 100, 115, 15)]"
    by (simp add: gap_entries_def sorted_common_def series_min_def)
  have ex2: "gap_entries ''distance'' [CostRow ''distance'' (1::nat) (Some 0)]
          [CostRow ''distance'' 1 (Some 115)] = Inr []"
    by (simp add: gap_entries_def sorted_common_def series_min_def)
  from run dist iff omitted ex1 ex2 show ?thesis by blast
qed

text \<open>The theorem at an exact cost of 100 and heuristic costs 120 and 115.\<close>

theorem gap_defined_iff_exact_positive_witness:
  "find (\<lambda>r. cost_function r = ''distance'' \<and> instance_name r = (1::nat))
        [CostRow ''distance'' 1 (Some 100), CostRow ''quadratic'' 1 (Some 7)]
     = Some (CostRow ''distance'' 1 (Some 100))
   \<and> (\<exists>r \<in> set [CostRow ''distance'' (1::nat) (Some 120), CostRow ''distance'' 1 (Some 115)].
         cost_function r = ''distance'' \<and> instance_name r = 1)
   \<and> (\<exists>entries. gap_entries ''distance''
          [CostRow ''distance'' (1::nat) (Some 100), CostRow ''quadratic'' 1 (Some 7)]
          [CostRow ''distance'' 1 (Some 120), CostRow ''distance'' 1 (Some 115)] = Inr entries
        \<and> (1, 100, 115, 15) \<in> set entries \<and> (1, 100, 120, 20) \<notin> set entries)"
proof -
  let ?ex = "[CostRow ''distance'' (1::nat) (Some 100), CostRow ''quadratic'' 1 (Some 7)]"
  let ?he = "[CostRow ''distance'' (1::nat) (Some 120), CostRow ''distance'' 1 (Some 115)]"
  have h1: "find (\<lambda>r. cost_function r = ''distance'' \<and> instance_name r = (1::nat)) ?ex
     = Some (CostRow ''distance'' 1 (Some 100))" by simp
  have h2: "\<exists>r \<in> set ?he. cost_function r = ''distance'' \<and> instance_name r = 1" by simp
  from gap_defined_iff_exact_positive [OF h1 h2]
  obtain entries where e: "gap_entries ''distance'' ?ex ?he = Inr entries"
    and iff: "\<And>e h g. (1, e, h, g) \<in> set entries \<longleftrightarrow>
          cost_value (CostRow ''distance'' (1::nat) (Some 100)) = Some e \<and> e > 0
        \<and> (\<exists>r \<in> set ?he. cost_function r = ''distance'' \<and> instance_name r = 1 \<and> cost_value r = Some h)
        \<and> (\<forall>r \<in> set ?he. \<forall>v. cost_function r = ''distance'' \<and> instance_name r = 1 \<and> cost_value r = Some v
               \<longrightarrow> h \<le> v)
        \<and> g = (h - e) / e * 100"
    by blast
  have "(1, 100, 115, 15) \<in> set entries" unfolding iff by simp
  moreover have "(1, 100, 120, 20) \<notin> set entries" unfolding iff by simp
  ultimately show ?thesis using h1 h2 e by blast
qed

section \<open>Normalising result artifacts: proofs\<close>

lemma split_on_nonempty: "split_on c s \<noteq> []"
  by (induction s) (auto split: list.splits)

lemma length_split_on: "length (split_on c s) = Suc (length (filter (\<lambda>x. x = c) s))"
  by (induction s) (auto split: list.splits simp: split_on_nonempty)

lemma split_on_has_second:
  assumes "c \<in> set s"
  shows "1 < length (split_on c s)"
proof -
  from assms have "filter (\<lambda>x. x = c) s \<noteq> []"
    by (auto simp: filter_empty_conv)
  then have "0 < length (filter (\<lambda>x. x = c) s)" by blast
  then show ?thesis by (simp add: length_split_on)
qed

text \<open>
  Claim C10. When the file stem has no underscore, the algorithm name is the whole stem,
  whatever the payload holds under \<^verbatim>\<open>algorithm\<close> or \<^verbatim>\<open>Algorithm\<close>. Only when the stem
  has an underscore is the payload consulted: the first true value of
  \<^verbatim>\<open>algorithm\<close>, \<^verbatim>\<open>Algorithm\<close> and the second piece of the stem (which then exists).
  A file \<^verbatim>\<open>summary.json\<close> whose payload names ILS is given the algorithm "summary".
\<close>

theorem alg_payload_only_with_underscore:
  "(CHR ''_'' \<notin> set (stem jf) \<longrightarrow> alg j jf = JStr (stem jf))
   \<and> (CHR ''_'' \<in> set (stem jf) \<longrightarrow>
        1 < length (split_on CHR ''_'' (stem jf))
      \<and> alg j jf =
          (if truthy (get j ''algorithm'') then get j ''algorithm''
           else if truthy (get j ''Algorithm'') then get j ''Algorithm''
           else JStr (split_on CHR ''_'' (stem jf) ! 1)))
   \<and> alg [(''algorithm'', JStr ''ILS''), (''Algorithm'', JStr ''ACO'')] [''results'', ''summary.json'']
        = JStr ''summary''"
proof -
  have a: "CHR ''_'' \<notin> set (stem jf) \<longrightarrow> alg j jf = JStr (stem jf)"
    by (simp add: alg_def)
  have b: "CHR ''_'' \<in> set (stem jf) \<longrightarrow>
        1 < length (split_on CHR ''_'' (stem jf))
      \<and> alg j jf =
          (if truthy (get j ''algorithm'') then get j ''algorithm''
           else if truthy (get j ''Algorithm'') then get j ''Algorithm''
           else JStr (split_on CHR ''_'' (stem jf) ! 1))"
    using split_on_has_second [of "CHR ''_''" "stem jf"] by (simp add: alg_def py_or_def)
  have c: "alg [(''algorithm'', JStr ''ILS''), (''Algorithm'', JStr ''ACO'')] [''results'', ''summary.json'']
        = JStr ''summary''"
    by (simp add: alg_def stem_def path_name_def)
  from a b c show ?thesis by blast
qed

text \<open>The theorem at a stem without and a stem with underscores.\<close>

theorem alg_payload_only_with_underscore_witness:
  "CHR ''_'' \<notin> set (stem [''results'', ''n20q10A.json''])
   \<and> alg [(''algorithm'', JStr ''ILS'')] [''results'', ''n20q10A.json''] = JStr ''n20q10A''
   \<and> CHR ''_'' \<in> set (stem [''results'', ''n20q10A_ils_run0.json''])
   \<and> alg [(''algorithm'', JStr ''ILS'')] [''results'', ''n20q10A_ils_run0.json''] = JStr ''ILS''
   \<and> alg [] [''results'', ''n20q10A_ils_run0.json''] = JStr ''ils''"
proof -
  have s1: "stem [''results'', ''n20q10A.json''] = ''n20q10A''"
    by (simp add: stem_def path_name_def)
  have s2: "stem [''results'', ''n20q10A_ils_run0.json''] = ''n20q10A_ils_run0''"
    by (simp add: stem_def path_name_def)
  have n1: "CHR ''_'' \<notin> set (stem [''results'', ''n20q10A.json''])"
    unfolding s1 by simp
  have n2: "CHR ''_'' \<in> set (stem [''results'', ''n20q10A_ils_run0.json''])"
    unfolding s2 by simp
  from alg_payload_only_with_underscore [of "[''results'', ''n20q10A.json'']" "[(''algorithm'', JStr ''ILS'')]"] n1
  have a1: "alg [(''algorithm'', JStr ''ILS'')] [''results'', ''n20q10A.json''] = JStr ''n20q10A''"
    unfolding s1 by blast
  from alg_payload_only_with_underscore [of "[''results'', ''n20q10A_ils_run0.json'']" "[(''algorithm'', JStr ''ILS'')]"] n2
  have a2: "alg [(''algorithm'', JStr ''ILS'')] [''results'', ''n20q10A_ils_run0.json''] = JStr ''ILS''"
    by (simp add: get_def)
  from alg_payload_only_with_underscore [of "[''results'', ''n20q10A_ils_run0.json'']" "[]"] n2
  have a3: "alg [] [''results'', ''n20q10A_ils_run0.json''] = JStr ''ils''"
    unfolding s2 by (simp add: get_def)
  from n1 a1 n2 a2 a3 show ?thesis by blast
qed






lemma stem_snoc: "stem (dirs @ [name]) = stem [name]"
  by (simp add: stem_def path_name_def)




section \<open>Best result per alpha: proofs\<close>

lemma set_map_filter_id: "set (List.map_filter (\<lambda>v. v) vs) = {v. Some v \<in> set vs}"
  by (induction vs) (auto split: option.splits)

lemma idxmax_None: "idxmax vs = None \<longleftrightarrow> (\<forall>v \<in> set vs. v = None)"
proof -
  have "List.map_filter (\<lambda>v. v) vs = [] \<longleftrightarrow> {v. Some v \<in> set vs} = {}"
    using set_map_filter_id [of vs] by (metis set_empty)
  moreover have "{v. Some v \<in> set vs} = {} \<longleftrightarrow> (\<forall>v \<in> set vs. v = None)"
    by (metis (mono_tags, lifting) Collect_empty_eq not_None_eq)
  ultimately have e: "List.map_filter (\<lambda>v. v) vs = [] \<longleftrightarrow> (\<forall>v \<in> set vs. v = None)"
    by simp
  show ?thesis
  proof (cases "List.map_filter (\<lambda>v. v) vs")
    case Nil
    with e show ?thesis by (simp add: idxmax_def)
  next
    case (Cons p ps)
    with e have "\<not> (\<forall>v \<in> set vs. v = None)" by simp
    with Cons show ?thesis by (simp add: idxmax_def)
  qed
qed

lemma idxmax_Some:
  assumes "idxmax vs = Some i"
  shows "i < length vs \<and> (\<exists>m. vs ! i = Some m \<and> (\<forall>v. Some v \<in> set vs \<longrightarrow> v \<le> m)
           \<and> (\<forall>k < i. vs ! k \<noteq> Some m))"
proof -
  from assms obtain p ps where ps: "List.map_filter (\<lambda>v. v) vs = p # ps"
    and i: "i = length (takeWhile (\<lambda>v. v \<noteq> Some (fold max ps p)) vs)"
    by (auto simp: idxmax_def split: list.splits)
  let ?m = "fold max ps p"
  have S: "{v. Some v \<in> set vs} = set (p # ps)"
    using set_map_filter_id [of vs] ps by simp
  have m: "?m = Max (set (p # ps))" by (simp only: Max.set_eq_fold)
  have "?m \<in> set (p # ps)" unfolding m by (rule Max_in) simp_all
  then have mem: "Some ?m \<in> set vs" using S by blast
  have le: "v \<le> ?m" if "Some v \<in> set vs" for v
  proof -
    from that S have "v \<in> set (p # ps)" by blast
    then show ?thesis unfolding m by (intro Max_ge) simp_all
  qed
  have "takeWhile (\<lambda>v. v \<noteq> Some ?m) vs \<noteq> vs"
    using mem by (metis (mono_tags, lifting) set_takeWhileD)
  then have "length (takeWhile (\<lambda>v. v \<noteq> Some ?m) vs) \<noteq> length vs"
    by (metis takeWhile_eq_take take_all order_refl)
  then have lt: "i < length vs"
    unfolding i using length_takeWhile_le [of "\<lambda>v. v \<noteq> Some ?m" vs] by linarith
  have at: "vs ! i = Some ?m"
    using nth_length_takeWhile [of "\<lambda>v. v \<noteq> Some ?m" vs] lt unfolding i by blast
  have before: "vs ! k \<noteq> Some ?m" if "k < i" for k
  proof -
    from that have "takeWhile (\<lambda>v. v \<noteq> Some ?m) vs ! k \<in> set (takeWhile (\<lambda>v. v \<noteq> Some ?m) vs)"
      unfolding i by (rule nth_mem)
    then have "takeWhile (\<lambda>v. v \<noteq> Some ?m) vs ! k \<noteq> Some ?m"
      using set_takeWhileD by fastforce
    moreover have "takeWhile (\<lambda>v. v \<noteq> Some ?m) vs ! k = vs ! k"
      using that unfolding i by (rule takeWhile_nth)
    ultimately show ?thesis by simp
  qed
  from lt at le before show ?thesis by blast
qed

lemma best_of_group_Inr:
  assumes "best_of_group g = Inr b"
  shows "\<exists>i m. i < length g \<and> g ! i = b \<and> objective b = Some m
           \<and> (\<forall>r \<in> set g. \<forall>v. objective r = Some v \<longrightarrow> v \<le> m)
           \<and> (\<forall>k < i. objective (g ! k) \<noteq> Some m)"
proof -
  from assms obtain i where i: "idxmax (map objective g) = Some i" and b: "b = g ! i"
    by (auto simp: best_of_group_def split: option.splits)
  from idxmax_Some [OF i] obtain m where
    lt: "i < length g" and at: "map objective g ! i = Some m"
    and le: "\<forall>v. Some v \<in> set (map objective g) \<longrightarrow> v \<le> m"
    and first: "\<forall>k < i. map objective g ! k \<noteq> Some m"
    by auto
  from lt at b have "objective b = Some m" by simp
  moreover have "\<forall>r \<in> set g. \<forall>v. objective r = Some v \<longrightarrow> v \<le> m"
    using le by (metis image_eqI set_map)
  moreover have "\<forall>k < i. objective (g ! k) \<noteq> Some m"
    using first lt by simp
  ultimately show ?thesis using lt b by blast
qed

lemma best_of_group_defined:
  assumes "\<exists>r \<in> set g. objective r \<noteq> None"
  shows "\<exists>b. best_of_group g = Inr b"
proof -
  from assms have "idxmax (map objective g) \<noteq> None"
    unfolding idxmax_None by auto
  then show ?thesis by (auto simp: best_of_group_def)
qed

lemma apply_groups_all2:
  assumes "\<forall>a \<in> set keys. \<exists>r \<in> set df. alpha r = a \<and> objective r \<noteq> None"
  shows "\<exists>bs. apply_groups df keys = Inr bs
           \<and> list_all2 (\<lambda>a b. best_of_group (filter (\<lambda>r. alpha r = a) df) = Inr b) keys bs"
  using assms
proof (induction keys)
  case Nil
  then show ?case by simp
next
  case (Cons a keys)
  then obtain bs where bs: "apply_groups df keys = Inr bs"
    "list_all2 (\<lambda>a b. best_of_group (filter (\<lambda>r. alpha r = a) df) = Inr b) keys bs"
    by auto
  from Cons.prems have "\<exists>r \<in> set (filter (\<lambda>r. alpha r = a) df). objective r \<noteq> None"
    by auto
  from best_of_group_defined [OF this]
  obtain b where b: "best_of_group (filter (\<lambda>r. alpha r = a) df) = Inr b" by blast
  with bs show ?case by simp
qed

lemma filter_eq_appendD:
  "filter P xs = ys @ zs \<Longrightarrow> \<exists>us vs. xs = us @ vs \<and> filter P us = ys \<and> filter P vs = zs"
proof (induction xs arbitrary: ys)
  case Nil
  then show ?case by simp
next
  case (Cons x xs)
  show ?case
  proof (cases "P x")
    case False
    with Cons.prems have "filter P xs = ys @ zs" by simp
    from Cons.IH [OF this] obtain us vs where
      "xs = us @ vs" "filter P us = ys" "filter P vs = zs" by blast
    with False have "x # xs = (x # us) @ vs \<and> filter P (x # us) = ys \<and> filter P vs = zs"
      by simp
    then show ?thesis by blast
  next
    case True
    show ?thesis
    proof (cases ys)
      case Nil
      with Cons.prems have "x # xs = [] @ (x # xs) \<and> filter P [] = ys \<and> filter P (x # xs) = zs"
        by simp
      then show ?thesis by blast
    next
      case (Cons y ys')
      with True Cons.prems have y: "y = x" and "filter P xs = ys' @ zs" by simp_all
      from Cons.IH [OF this(2)] obtain us vs where
        "xs = us @ vs" "filter P us = ys'" "filter P vs = zs" by blast
      with True y Cons have "x # xs = (x # us) @ vs \<and> filter P (x # us) = ys \<and> filter P vs = zs"
        by simp
      then show ?thesis by blast
    qed
  qed
qed

lemma filter_nth_split:
  assumes "i < length (filter P xs)"
  shows "\<exists>pre post. xs = pre @ (filter P xs ! i) # post
           \<and> (\<forall>r \<in> set pre. P r \<longrightarrow> (\<exists>k < i. filter P xs ! k = r))"
proof -
  let ?g = "filter P xs"
  have "?g = take i ?g @ (?g ! i) # drop (Suc i) ?g"
    using assms by (rule id_take_nth_drop)
  from filter_eq_appendD [OF this]
  obtain us vs where xs: "xs = us @ vs" and us: "filter P us = take i ?g"
    and vs: "filter P vs = (?g ! i) # drop (Suc i) ?g"
    by blast
  from vs obtain us' vs' where vs': "vs = us' @ (?g ! i) # vs'" and no: "\<forall>u \<in> set us'. \<not> P u"
    unfolding filter_eq_Cons_iff by blast
  have "\<exists>k < i. ?g ! k = r" if "r \<in> set (us @ us')" "P r" for r
  proof -
    from that no have "r \<in> set (filter P us)" by auto
    with us have "r \<in> set (take i ?g)" by simp
    then obtain k where "k < length (take i ?g)" "take i ?g ! k = r"
      by (auto simp: in_set_conv_nth)
    then show ?thesis by auto
  qed
  with xs vs' show ?thesis by (intro exI [of _ "us @ us'"] exI [of _ vs']) auto
qed

lemma apply_groups_alpha:
  "apply_groups df keys = Inr bs \<Longrightarrow>
     list_all2 (\<lambda>a b. best_of_group (filter (\<lambda>r. alpha r = a) df) = Inr b) keys bs"
proof (induction keys arbitrary: bs)
  case Nil
  then show ?case by simp
next
  case (Cons a keys)
  then show ?case by (auto split: sum.splits)
qed

lemma best_of_group_filter:
  assumes "best_of_group (filter (\<lambda>r. alpha r = a) df) = Inr b"
  shows "alpha b = a \<and> (\<exists>pre post m. df = pre @ b # post \<and> objective b = Some m
           \<and> (\<forall>r \<in> set df. alpha r = a \<longrightarrow> (\<forall>v. objective r = Some v \<longrightarrow> v \<le> m))
           \<and> (\<forall>r \<in> set pre. alpha r = a \<longrightarrow> objective r \<noteq> Some m))"
proof -
  define g where "g = filter (\<lambda>r. alpha r = a) df"
  from best_of_group_Inr [OF assms [folded g_def]] obtain i m where
    i: "i < length g" and b: "g ! i = b" and m: "objective b = Some m"
    and le: "\<forall>r \<in> set g. \<forall>v. objective r = Some v \<longrightarrow> v \<le> m"
    and first: "\<forall>k < i. objective (g ! k) \<noteq> Some m"
    by (elim exE conjE)
  from i b have "b \<in> set g" using nth_mem by blast
  then have ab: "alpha b = a" by (simp add: g_def)
  have "i < length (filter (\<lambda>r. alpha r = a) df)" using i by (simp add: g_def)
  from filter_nth_split [OF this]
  obtain pre post where
    split: "df = pre @ (g ! i) # post"
    and pre: "\<forall>r \<in> set pre. alpha r = a \<longrightarrow> (\<exists>k < i. g ! k = r)"
    unfolding g_def by (elim exE conjE)
  have p: "\<forall>r \<in> set pre. alpha r = a \<longrightarrow> objective r \<noteq> Some m"
  proof (intro ballI impI)
    fix r assume "r \<in> set pre" "alpha r = a"
    with pre obtain k where "k < i" "g ! k = r" by blast
    with first show "objective r \<noteq> Some m" by blast
  qed
  have q: "\<forall>r \<in> set df. alpha r = a \<longrightarrow> (\<forall>v. objective r = Some v \<longrightarrow> v \<le> m)"
    using le by (simp add: g_def)
  from split b have split': "df = pre @ b # post" by simp
  from ab split' m p q show ?thesis by blast
qed

text \<open>
  Claim C5, as amended. When every alpha value has a row with an objective, the
  selection returns one row per alpha value, in ascending order of alpha. The row
  selected for a value belongs to the frame, its objective is the largest one present
  among the rows of that value, and no earlier row of that value reaches it: on a tie the
  row that comes first in the frame is selected. With A at 50 and 42 and B at 48 and 45
  on the grid 0.0, 0.1 the selection is A for 0.0 and B for 0.1.
\<close>

theorem best_per_alpha_first_maximum:
  assumes "\<forall>r \<in> set df. \<exists>r' \<in> set df. alpha r' = alpha r \<and> objective r' \<noteq> None"
  shows "\<exists>best.
      best_per_alpha df = Inr best
    \<and> map alpha best = sort (remdups (map alpha df))
    \<and> (\<forall>b \<in> set best. \<exists>pre post m.
          df = pre @ b # post \<and> objective b = Some m
        \<and> (\<forall>r \<in> set df. alpha r = alpha b \<longrightarrow> (\<forall>v. objective r = Some v \<longrightarrow> v \<le> m))
        \<and> (\<forall>r \<in> set pre. alpha r = alpha b \<longrightarrow> objective r \<noteq> Some m))
    \<and> best_per_alpha
          [SweepRow 0 ''A'' (Some 50), SweepRow 0 ''B'' (Some 48),
           SweepRow (1 / 10) ''A'' (Some 42), SweepRow (1 / 10) ''B'' (Some 45)]
        = Inr [SweepRow 0 ''A'' (Some 50), SweepRow (1 / 10) ''B'' (Some 45)]"
proof -
  let ?keys = "sort (remdups (map alpha df))"
  have "\<forall>a \<in> set ?keys. \<exists>r \<in> set df. alpha r = a \<and> objective r \<noteq> None"
    using assms by auto
  from apply_groups_all2 [OF this] obtain best where
    run: "apply_groups df ?keys = Inr best"
    and all2: "list_all2 (\<lambda>a b. best_of_group (filter (\<lambda>r. alpha r = a) df) = Inr b) ?keys best"
    by blast
  have each: "list_all2 (\<lambda>a b. alpha b = a) ?keys best"
    using all2
  proof (rule list_all2_mono)
    fix a b assume "best_of_group (filter (\<lambda>r. alpha r = a) df) = Inr b"
    from best_of_group_filter [OF this] show "alpha b = a" by (rule conjunct1)
  qed
  then have keys: "map alpha best = ?keys"
    by (induction rule: list_all2_induct) simp_all
  have sel: "\<exists>pre post m.
          df = pre @ b # post \<and> objective b = Some m
        \<and> (\<forall>r \<in> set df. alpha r = alpha b \<longrightarrow> (\<forall>v. objective r = Some v \<longrightarrow> v \<le> m))
        \<and> (\<forall>r \<in> set pre. alpha r = alpha b \<longrightarrow> objective r \<noteq> Some m)" if "b \<in> set best" for b
  proof -
    from that obtain n where n: "n < length best" "best ! n = b"
      by (auto simp: in_set_conv_nth)
    with all2 have bg: "best_of_group (filter (\<lambda>r. alpha r = ?keys ! n) df) = Inr b"
      by (simp add: list_all2_conv_all_nth)
    from best_of_group_filter [OF bg] have ab: "alpha b = ?keys ! n" by (rule conjunct1)
    from best_of_group_filter [OF bg] show ?thesis unfolding ab by (rule conjunct2)
  qed
  have example: "best_per_alpha
          [SweepRow 0 ''A'' (Some 50), SweepRow 0 ''B'' (Some 48),
           SweepRow (1 / 10) ''A'' (Some 42), SweepRow (1 / 10) ''B'' (Some 45)]
        = Inr [SweepRow 0 ''A'' (Some 50), SweepRow (1 / 10) ''B'' (Some 45)]"
    by (simp add: best_per_alpha_def best_of_group_def idxmax_def)
  from run keys sel example show ?thesis
    unfolding best_per_alpha_def [of df] by blast
qed

text \<open>
  Claim C5 as stated breaks a tie by the smallest algorithm name. With B read before A
  and both at 50, \<^verbatim>\<open>idxmax\<close> gives the first position: B is selected, not A.
\<close>

theorem best_per_alpha_tie_counterexample:
  "best_per_alpha [SweepRow 0 ''B'' (Some 50), SweepRow 0 ''A'' (Some 50)]
     = Inr [SweepRow 0 ''B'' (Some 50)]"
  by (simp add: best_per_alpha_def best_of_group_def idxmax_def)

text \<open>The theorem at a group with a tie and a row without objective.\<close>

theorem best_per_alpha_first_maximum_witness:
  "alpha (SweepRow 0 ''C'' None) = alpha (SweepRow 0 ''B'' (Some 50))
   \<and> objective (SweepRow 0 ''B'' (Some 50)) = Some 50
   \<and> (\<exists>b. best_per_alpha [SweepRow 0 ''B'' (Some 50), SweepRow 0 ''A'' (Some 50), SweepRow 0 ''C'' None]
            = Inr [b] \<and> objective b = Some 50)"
proof -
  let ?df = "[SweepRow 0 ''B'' (Some 50), SweepRow 0 ''A'' (Some 50), SweepRow 0 ''C'' None]"
  have h: "\<forall>r \<in> set ?df. \<exists>r' \<in> set ?df. alpha r' = alpha r \<and> objective r' \<noteq> None"
    by simp
  from best_per_alpha_first_maximum [OF h] obtain best where
    run: "best_per_alpha ?df = Inr best"
    and keys: "map alpha best = sort (remdups (map alpha ?df))"
    and sel: "\<forall>b \<in> set best. \<exists>pre post m.
          ?df = pre @ b # post \<and> objective b = Some m
        \<and> (\<forall>r \<in> set ?df. alpha r = alpha b \<longrightarrow> (\<forall>v. objective r = Some v \<longrightarrow> v \<le> m))
        \<and> (\<forall>r \<in> set pre. alpha r = alpha b \<longrightarrow> objective r \<noteq> Some m)"
    by blast
  from keys have "map alpha best = [0]" by simp
  then obtain b where b: "best = [b]" by auto
  with sel obtain m where m: "objective b = Some m"
    "\<forall>r \<in> set ?df. alpha r = alpha b \<longrightarrow> (\<forall>v. objective r = Some v \<longrightarrow> v \<le> m)"
    "b \<in> set ?df"
    by fastforce
  from m(1,3) have "m = 50" by auto
  with run b m show ?thesis by simp
qed

section \<open>Canonical algorithm names: proofs\<close>

subsection \<open>normalize\_algo\<close>

lemma normalize_algo_labels:
  "normalize_algo (Some ''Exact'') = Some ''Exact''"
  "normalize_algo (Some ''Memetic'') = Some ''Memetic''"
  "normalize_algo (Some ''GA'') = Some ''GA''"
  "normalize_algo (Some ''MMAS'') = Some ''MMAS''"
  "normalize_algo (Some ''ACO'') = Some ''ACO''"
  "normalize_algo (Some ''Hybrid'') = Some ''Hybrid''"
  "normalize_algo (Some ''NN'') = Some ''NN''"
  by (simp_all add: normalize_algo_def lower_def lower_char_def startswith_def)

lemma normalize_algo_range:
  "normalize_algo name \<in> {name, Some ''Exact'', Some ''Memetic'', Some ''GA'', Some ''MMAS'',
                             Some ''ACO'', Some ''Hybrid'', Some ''NN''}"
  by (cases name) (simp_all add: normalize_algo_def Let_def)

lemma normalize_algo_idem: "normalize_algo (normalize_algo name) = normalize_algo name"
  using normalize_algo_range [of name] normalize_algo_labels by (elim insertE) simp_all

subsection \<open>alg\_short\<close>

lemma run_digit_next_append:
  "run_digit_next (cs @ CHR ''-'' # rest) = run_digit_next cs"
proof (cases cs)
  case Nil
  then show ?thesis by (simp add: run_digit_next_def startswith_def)
next
  case c1: (Cons a1 l1)
  show ?thesis
  proof (cases l1)
    case Nil
    with c1 show ?thesis by (simp add: run_digit_next_def startswith_def)
  next
    case c2: (Cons a2 l2)
    show ?thesis
    proof (cases l2)
      case Nil
      with c1 c2 show ?thesis by (simp add: run_digit_next_def startswith_def)
    next
      case c3: (Cons a3 l3)
      show ?thesis
      proof (cases l3)
        case Nil
        with c1 c2 c3 show ?thesis
          by (simp add: run_digit_next_def startswith_def is_digit_def)
      next
        case (Cons a4 l4)
        with c1 c2 c3 show ?thesis by (simp add: run_digit_next_def startswith_def)
      qed
    qed
  qed
qed

lemma regex_remove_run_no_tag: "\<not> has_run_tag s \<Longrightarrow> regex_remove_run s = s"
  by (induction s) auto

lemma regex_remove_run_digits:
  assumes "digits \<noteq> []" "\<forall>d \<in> set digits. is_digit d"
  shows "regex_remove_run (''-run'' @ digits) = []"
proof -
  from assms obtain d ds where ds: "digits = d # ds" by (cases digits) auto
  with assms have d: "is_digit d" by simp
  have dw: "dropWhile is_digit ds = []"
    using assms(2) unfolding ds by (simp add: dropWhile_eq_Nil_conv)
  have "regex_remove_run (''-run'' @ d # ds) = regex_remove_run (dropWhile is_digit ds)"
    using d by (simp add: run_digit_next_def startswith_def)
  also have "\<dots> = []" unfolding dw by simp
  finally show ?thesis unfolding ds .
qed

lemma regex_remove_run_suffix:
  assumes "\<not> has_run_tag base" "digits \<noteq> []" "\<forall>d \<in> set digits. is_digit d"
  shows "regex_remove_run (base @ ''-run'' @ digits) = base"
  using assms(1)
proof (induction base)
  case Nil
  show ?case using regex_remove_run_digits [OF assms(2,3)] by simp
next
  case (Cons c cs)
  then have no: "\<not> (c = CHR ''-'' \<and> run_digit_next cs)" and rest: "\<not> has_run_tag cs"
    by simp_all
  define x where "x = cs @ ''-run'' @ digits"
  have "run_digit_next x = run_digit_next cs"
    unfolding x_def using run_digit_next_append [of cs "''run'' @ digits"] by simp
  with no have "\<not> (c = CHR ''-'' \<and> run_digit_next x)" by simp
  then have "regex_remove_run (c # x) = c # regex_remove_run x"
    by auto
  moreover have "regex_remove_run x = cs"
    unfolding x_def by (rule Cons.IH [OF rest])
  moreover have "(c # cs) @ ''-run'' @ digits = c # x"
    by (simp add: x_def)
  ultimately show ?case by simp
qed

lemma dropWhile_head: "ys \<noteq> [] \<Longrightarrow> \<not> P (hd ys) \<Longrightarrow> dropWhile P ys = ys"
  by (cases ys) simp_all

lemma strip_canonical:
  assumes "s \<noteq> [] \<longrightarrow> \<not> is_space (hd s) \<and> \<not> is_space (last s)"
  shows "strip s = s"
proof (cases s)
  case Nil
  then show ?thesis by (simp add: strip_def)
next
  case (Cons c cs)
  with assms have h: "\<not> is_space (hd s)" and l: "\<not> is_space (last s)" by simp_all
  from Cons have ne: "s \<noteq> []" by simp
  from ne h have "dropWhile is_space s = s" by (rule dropWhile_head)
  moreover have "dropWhile is_space (rev s) = rev s"
  proof (rule dropWhile_head)
    show "rev s \<noteq> []" using ne by simp
    show "\<not> is_space (hd (rev s))" using l ne by (simp add: hd_rev)
  qed
  ultimately show ?thesis by (simp add: strip_def)
qed

lemma remove_quotes_canonical: "CHR 0x22 \<notin> set s \<Longrightarrow> remove_quotes s = s"
  by (auto simp: remove_quotes_def filter_id_conv)

text \<open>
  Claim C8, as amended. \<open>normalize_algo\<close> is idempotent on every name. \<open>alg_short\<close>
  returns every canonical name unchanged, where a canonical name holds no run tag, no
  double quote and no whitespace at either end; and a canonical name followed by
  \<^verbatim>\<open>-run\<close> and digits is mapped to that name, on which a second application changes
  nothing.
\<close>

theorem canonicalization_fixes_canonical_names:
  "normalize_algo (normalize_algo name) = normalize_algo name
   \<and> (canonical t \<longrightarrow> alg_short t = t)
   \<and> (canonical base \<and> digits \<noteq> [] \<and> (\<forall>d \<in> set digits. is_digit d) \<longrightarrow>
         alg_short (base @ ''-run'' @ digits) = base
       \<and> alg_short (alg_short (base @ ''-run'' @ digits)) = alg_short (base @ ''-run'' @ digits))"
proof -
  have fixed: "alg_short s = s" if "canonical s" for s
  proof -
    from that have "regex_remove_run s = s" "remove_quotes s = s" "strip s = s"
      by (simp_all add: canonical_def regex_remove_run_no_tag remove_quotes_canonical
          strip_canonical)
    then show ?thesis by (simp add: alg_short_def)
  qed
  have tagged: "alg_short (base @ ''-run'' @ digits) = base"
    if "canonical base" "digits \<noteq> []" "\<forall>d \<in> set digits. is_digit d"
  proof -
    from that have "regex_remove_run (base @ ''-run'' @ digits) = base"
      by (intro regex_remove_run_suffix) (simp_all add: canonical_def)
    moreover from that(1) have "remove_quotes base = base" "strip base = base"
      by (simp_all add: canonical_def remove_quotes_canonical strip_canonical)
    ultimately show ?thesis by (simp only: alg_short_def)
  qed
  have twice: "alg_short (alg_short (base @ ''-run'' @ digits)) = alg_short (base @ ''-run'' @ digits)"
    if "canonical base" "digits \<noteq> []" "\<forall>d \<in> set digits. is_digit d"
    using tagged [OF that] fixed [OF that(1)] by simp
  from normalize_algo_idem [of name] fixed [of t] tagged twice show ?thesis by blast
qed

text \<open>
  Claim C8 as stated holds for every name string. The substitution of line 20 makes one
  pass: dropping the tag inside \<^verbatim>\<open>A-r-run0un1\<close> joins its neighbours into a new tag,
  which only a second application removes.
\<close>

theorem alg_short_not_idempotent_counterexample:
  "alg_short ''A-r-run0un1'' = ''A-run1'' \<and> alg_short (alg_short ''A-r-run0un1'') = ''A''"
  by (simp add: alg_short_def run_digit_next_def startswith_def is_digit_def strip_def
      remove_quotes_def is_space_def)

text \<open>The theorem at the names of the solver's runs.\<close>

theorem canonicalization_fixes_canonical_names_witness:
  "alg_short ''ILS'' = ''ILS''
   \<and> is_digit CHR ''1'' \<and> is_digit CHR ''2''
   \<and> alg_short ''ILS-run12'' = ''ILS''
   \<and> alg_short (alg_short ''ILS-run12'') = alg_short ''ILS-run12''
   \<and> normalize_algo (normalize_algo (Some ''GeneticAlgorithm-run3''))
       = normalize_algo (Some ''GeneticAlgorithm-run3'')"
proof -
  have c: "canonical ''ILS''"
    by (simp add: canonical_def run_digit_next_def startswith_def is_space_def)
  have d: "''12'' \<noteq> []" "\<forall>d \<in> set ''12''. is_digit d"
    by (simp_all add: is_digit_def)
  from canonicalization_fixes_canonical_names
         [of "Some ''GeneticAlgorithm-run3''" "''ILS''" "''ILS''" "''12''"] c d
  show ?thesis by simp
qed

section \<open>Statistics per algorithm: proofs\<close>







section \<open>Running the solver: proofs\<close>







end
